theory Spec2Isabelle
  imports Complex_Main "HOL-Library.AList" "HOL-Library.Char_ord" "HOL-Library.List_Lexorder"
begin

section \<open>The service registry\<close>

text \<open>
  The \<^verbatim>\<open>Service\<close> model of \<^verbatim>\<open>dispatching/configuration.py\<close>: every field is a keyword
  (a string) but the failure limit; \<^verbatim>\<open>accepts\<close> and \<^verbatim>\<open>rejects\<close> default to the empty
  string.
\<close>

record service =
  name :: string
  category :: string
  stage :: string
  accepts :: string
  rejects :: string
  failure_limit :: int

text \<open>
  \<^verbatim>\<open>Scheduler.services\<close> builds a dict from the items the datastore search returns,
  \<^verbatim>\<open>{ser.name: ser for ser in items}\<close>. A Python dict keeps the position of a key's first
  insertion and the value of its last one, which is what \<open>AList.update\<close> does on an
  association list. The list \<open>items\<close> is what the search returned.
\<close>

definition services :: "service list \<Rightarrow> (string \<times> service) list" where
  "services items = foldl (\<lambda>d ser. AList.update (name ser) ser d) [] items"

text \<open>
  \<^verbatim>\<open>Scheduler.categories\<close>: for every service, in the order of the dict's values, append
  its name to the list stored under its category, or start that list on a
  \<^verbatim>\<open>KeyError\<close>.
\<close>

definition categories :: "service list \<Rightarrow> (string \<times> string list) list" where
  "categories items =
     foldl (\<lambda>all_categories ser.
              (case map_of all_categories (category ser) of
                 Some names \<Rightarrow> AList.update (category ser) (names @ [name ser]) all_categories
               | None \<Rightarrow> AList.update (category ser) [name ser] all_categories))
       [] (map snd (services items))"

section \<open>Category expansion\<close>

text \<open>
  The \<^verbatim>\<open>while services:\<close> loop of \<^verbatim>\<open>Scheduler.expand_categories\<close>. \<^verbatim>\<open>services.pop()\<close>
  takes the last element and \<^verbatim>\<open>services.extend\<close> appends at the end.
  \<^verbatim>\<open>seen_categories.update(name)\<close> iterates the string \<^verbatim>\<open>name\<close> and adds each of its
  characters, as a one-character string, to the set. The loop need not end, so the
  result is an option: \<open>None\<close> is a loop that runs forever.
\<close>

partial_function (option) expand_loop ::
  "(string \<times> string list) list \<Rightarrow> string list \<Rightarrow> string list \<Rightarrow> string set \<Rightarrow> string list option"
where
  "expand_loop cats svcs found_services seen_categories =
     (if svcs = [] then Some found_services
      else
        (let name = last svcs; svcs' = butlast svcs in
           (case map_of cats name of
              Some members \<Rightarrow>
                if name \<notin> seen_categories
                then expand_loop cats (svcs' @ members) found_services
                       (seen_categories \<union> (\<lambda>c. [c]) ` set name)
                else expand_loop cats svcs' found_services seen_categories
            | None \<Rightarrow> expand_loop cats svcs' (found_services @ [name]) seen_categories)))"

declare expand_loop.simps [code]

text \<open>
  \<^verbatim>\<open>Scheduler.expand_categories\<close>: \<^verbatim>\<open>None\<close> gives the empty list; otherwise the loop runs
  on a copy of the list and the result is \<^verbatim>\<open>list(set(found_services))\<close>: each found name
  once, in an order Python leaves unspecified. \<open>remdups\<close> stands for that list; nothing
  below depends on its order.
\<close>

definition expand_categories :: "service list \<Rightarrow> string list option \<Rightarrow> string list option" where
  "expand_categories items selectors =
     (case selectors of
        None \<Rightarrow> Some []
      | Some svcs \<Rightarrow> map_option remdups (expand_loop (categories items) svcs [] {}))"

section \<open>Pattern matching\<close>

text \<open>
  What an operation of the program can raise: \<^verbatim>\<open>list.index\<close> raises \<^verbatim>\<open>ValueError\<close>,
  \<^verbatim>\<open>re.match\<close> raises \<^verbatim>\<open>re.error\<close> on a pattern it cannot compile, \<^verbatim>\<open>getattr\<close>
  raises \<^verbatim>\<open>AttributeError\<close> and \<^verbatim>\<open>hash\<close> raises \<^verbatim>\<open>TypeError\<close> on an unhashable
  value. Each carries the offending name.
\<close>

datatype error =
  ValueError string | PatternError string | AttributeError string | TypeError string

text \<open>
  \<^verbatim>\<open>re.match\<close> belongs to Python's standard library, so the scheduler below takes the
  matcher as a parameter \<open>re_match pattern string\<close>: \<open>Some True\<close> for a match object,
  \<open>Some False\<close> for \<^verbatim>\<open>None\<close>, and \<open>None\<close> when \<^verbatim>\<open>re.error\<close> is raised.

  For concrete runs, \<open>py_re_match\<close> is \<^verbatim>\<open>re.match\<close> on the patterns made of literal
  characters, \<^verbatim>\<open>.\<close> (any character but a newline) and a postfix \<^verbatim>\<open>*\<close>. \<^verbatim>\<open>re.match\<close>
  anchors the pattern at the start of the string only: it succeeds when the pattern
  matches some prefix. A pattern that begins with \<^verbatim>\<open>*\<close> or repeats a \<^verbatim>\<open>*\<close> is an
  \<^verbatim>\<open>re.error\<close>. A pattern that uses any other metacharacter is outside this fragment:
  \<open>py_re_match\<close> answers \<open>None\<close> there, which says nothing about Python, and it is
  applied below only to patterns of the fragment.
\<close>

datatype atom = Lit char | Dot

definition metachars :: "char list" where
  "metachars = [CHR ''*'', CHR ''+'', CHR ''?'', CHR ''{'', CHR ''}'', CHR ''['', CHR '']'',
                CHR ''('', CHR '')'', CHR ''|'', CHR 0x5C, CHR ''^'', CHR ''$'']"

fun parse_pattern :: "string \<Rightarrow> (atom \<times> bool) list option" where
  "parse_pattern [] = Some []"
| "parse_pattern (c # cs) =
     (if c \<in> set metachars then None
      else
        (let a = (if c = CHR ''.'' then Dot else Lit c) in
           (case cs of
              [] \<Rightarrow> Some [(a, False)]
            | d # ds \<Rightarrow>
                if d = CHR ''*'' then map_option ((#) (a, True)) (parse_pattern ds)
                else map_option ((#) (a, False)) (parse_pattern (d # ds)))))"

fun atom_matches :: "atom \<Rightarrow> char \<Rightarrow> bool" where
  "atom_matches (Lit l) c = (l = c)"
| "atom_matches Dot c = (c \<noteq> CHR 0x0A)"

fun match_items :: "(atom \<times> bool) list \<Rightarrow> string \<Rightarrow> bool" where
  "match_items [] s = True"
| "match_items ((a, False) # r) [] = False"
| "match_items ((a, False) # r) (c # cs) = (atom_matches a c \<and> match_items r cs)"
| "match_items ((a, True) # r) [] = match_items r []"
| "match_items ((a, True) # r) (c # cs) =
     ((atom_matches a c \<and> match_items ((a, True) # r) cs) \<or> match_items r (c # cs))"

definition py_re_match :: "string \<Rightarrow> string \<Rightarrow> bool option" where
  "py_re_match pattern s = map_option (\<lambda>items. match_items items s) (parse_pattern pattern)"

section \<open>The scheduler\<close>

text \<open>
  The fields of a submission that \<^verbatim>\<open>build_schedule\<close> reads; either may be \<^verbatim>\<open>None\<close>.
\<close>

record submission =
  selected_categories :: "string list option"
  excluded_categories :: "string list option"

definition system_category :: string where
  "system_category = ''system''"

text \<open>\<^verbatim>\<open>list.index\<close>: the first position of the element, or \<^verbatim>\<open>ValueError\<close>.\<close>

fun index_of :: "'a list \<Rightarrow> 'a \<Rightarrow> nat option" where
  "index_of [] x = None"
| "index_of (y # ys) x = (if y = x then Some 0 else map_option Suc (index_of ys x))"

text \<open>
  \<^verbatim>\<open>Scheduler.stage_index\<close>. The class calls \<^verbatim>\<open>self.stages()\<close> and does not define it;
  the Stage List it returns is the parameter \<open>stages\<close> here and below.
\<close>

definition stage_index :: "string list \<Rightarrow> string \<Rightarrow> error + nat" where
  "stage_index stages stg =
     (case index_of stages stg of None \<Rightarrow> Inl (ValueError stg) | Some i \<Rightarrow> Inr i)"

text \<open>
  The \<^verbatim>\<open>for name in services:\<close> loop of \<^verbatim>\<open>build_schedule\<close>. The state is the schedule
  (a list of dicts from service name to service) and the names for which
  \<^verbatim>\<open>logging.warning\<close> was called. The two \<^verbatim>\<open>print\<close> calls evaluate both matches for
  every service that is found, so an \<^verbatim>\<open>re.error\<close> of either pattern ends the loop. The
  lists \<^verbatim>\<open>selected\<close> and \<^verbatim>\<open>skipped\<close> that the loop fills are never read and are left
  out.
\<close>

fun schedule_loop ::
  "(string \<Rightarrow> string \<Rightarrow> bool option) \<Rightarrow> string list \<Rightarrow> (string \<times> service) list \<Rightarrow> string \<Rightarrow>
   string list \<Rightarrow> (string \<rightharpoonup> service) list \<times> string list \<Rightarrow>
   error + (string \<rightharpoonup> service) list \<times> string list"
where
  "schedule_loop re_match stages all_services file_type [] (schedule, warned) =
     Inr (schedule, warned)"
| "schedule_loop re_match stages all_services file_type (nm # names) (schedule, warned) =
     (case map_of all_services nm of
        None \<Rightarrow>
          schedule_loop re_match stages all_services file_type names (schedule, warned @ [nm])
      | Some ser \<Rightarrow>
          (case re_match (accepts ser) file_type of
             None \<Rightarrow> Inl (PatternError (accepts ser))
           | Some acc \<Rightarrow>
               (case re_match (rejects ser) file_type of
                  None \<Rightarrow> Inl (PatternError (rejects ser))
                | Some rej \<Rightarrow>
                    if acc \<and> (rejects ser = [] \<or> \<not> rej)
                    then
                      (case stage_index stages (stage ser) of
                         Inl e \<Rightarrow> Inl e
                       | Inr i \<Rightarrow>
                           schedule_loop re_match stages all_services file_type names
                             (schedule[i := (schedule ! i)(nm \<mapsto> ser)], warned))
                    else
                      schedule_loop re_match stages all_services file_type names
                        (schedule, warned))))"

text \<open>
  Lines 75 to 77 of \<^verbatim>\<open>build_schedule\<close>: the name of every service of the system
  category is appended to the selection.
\<close>

definition add_system_services :: "(string \<times> service) list \<Rightarrow> string list \<Rightarrow> string list" where
  "add_system_services all_services selected =
     selected @ map fst (filter (\<lambda>(k, v). category v = system_category) all_services)"

text \<open>
  Line 81: \<^verbatim>\<open>list(set(selected) - set(excluded))\<close>, each remaining name once, in an
  order Python leaves unspecified.
\<close>

definition candidate_names :: "string list \<Rightarrow> string list \<Rightarrow> string list" where
  "candidate_names selected excluded = remdups (filter (\<lambda>n. n \<notin> set excluded) selected)"

text \<open>
  \<^verbatim>\<open>Scheduler.build_schedule\<close>. The excluded names are expanded first. An empty or
  absent selection selects every registered name. Then the system services are
  appended, and only after that the excluded names are taken away. The result is
  \<open>None\<close> when an expansion never returns, \<open>Some (Inl e)\<close> when the loop raises, and
  otherwise the schedule with the warnings logged on the way.
\<close>

definition build_schedule ::
  "(string \<Rightarrow> string \<Rightarrow> bool option) \<Rightarrow> string list \<Rightarrow> service list \<Rightarrow> submission \<Rightarrow> string \<Rightarrow>
   (error + (string \<rightharpoonup> service) list \<times> string list) option"
where
  "build_schedule re_match stages items sub file_type =
     (let all_services = services items in
        (case expand_categories items (excluded_categories sub) of
           None \<Rightarrow> None
         | Some excluded \<Rightarrow>
             (case (if selected_categories sub = None \<or> selected_categories sub = Some []
                    then Some (map fst all_services)
                    else expand_categories items (selected_categories sub)) of
                None \<Rightarrow> None
              | Some selected \<Rightarrow>
                  Some (schedule_loop re_match stages all_services file_type
                          (candidate_names (add_system_services all_services selected) excluded)
                          (replicate (length stages) Map.empty, [])))))"

section \<open>Config identity\<close>

text \<open>
  The values a configuration is made of. \<^verbatim>\<open>normalize_data\<close> tells dicts and lists or
  tuples from everything else, and everything else is a scalar to it: integers and
  strings, which are spelled out here, and any other object (\<^verbatim>\<open>None\<close>, a float, a bool,
  bytes, a set, ...), which is a value of the type parameter \<open>'o\<close>. A dict is the list
  of its items in insertion order, with string keys that are pairwise distinct, which is
  what the keys of a configuration written as JSON or YAML are.
\<close>

datatype 'o pyval =
    PInt int
  | PStr string
  | POther 'o
  | PList "'o pyval list"
  | PTuple "'o pyval list"
  | PDict "(string \<times> 'o pyval) list"

text \<open>
  \<^verbatim>\<open>normalize_data\<close>: a dict becomes the tuple of the pairs \<^verbatim>\<open>(k, normalize_data(data[k]))\<close>
  for \<^verbatim>\<open>k in sorted(data.keys())\<close>; a list or a tuple becomes the tuple of its normalized
  elements; anything else is returned as it is. \<^verbatim>\<open>sorted\<close> on strings is the
  lexicographic order of the characters. Every \<open>k\<close> is a key of the dict, so the
  lookup \<^verbatim>\<open>data[k]\<close> finds a value.
\<close>

function normalize_data :: "'o pyval \<Rightarrow> 'o pyval" where
  "normalize_data (PDict kvs) =
     PTuple (map (\<lambda>k. PTuple [PStr k, normalize_data (the (map_of kvs k))]) (sort (map fst kvs)))"
| "normalize_data (PList vs) = PTuple (map normalize_data vs)"
| "normalize_data (PTuple vs) = PTuple (map normalize_data vs)"
| "normalize_data (PInt n) = PInt n"
| "normalize_data (PStr s) = PStr s"
| "normalize_data (POther x) = POther x"
  by pat_completeness auto
termination
proof (relation "measure size", goal_cases)
  case 1
  then show ?case by simp
next
  case (2 kvs k)
  have bound: "map_of xs x = Some v \<Longrightarrow> size v < Suc (size_list (size_prod (\<lambda>_. 0) size) xs)"
    for xs :: "(string \<times> 'o pyval) list" and x v
    by (induction xs) (auto split: if_splits)
  have defined: "x \<in> set (map fst xs) \<Longrightarrow> \<exists>v. map_of xs x = Some v"
    for xs :: "(string \<times> 'o pyval) list" and x
    by (induction xs) auto
  from 2 have "k \<in> set (map fst kvs)" by simp
  from defined[OF this] obtain v where "map_of kvs k = Some v" by blast
  then show ?case using bound[of kvs k v] by simp
next
  case (3 vs v)
  then show ?case by (simp add: less_Suc_eq_le size_list_estimation')
next
  case (4 vs v)
  then show ?case by (simp add: less_Suc_eq_le size_list_estimation')
qed

text \<open>
  Python's builtin \<^verbatim>\<open>hash\<close> belongs to the interpreter. CPython hashes an integer to
  its value modulo \<open>2^61 - 1\<close> with the sign kept, and never answers \<open>-1\<close>, which it
  replaces by \<open>-2\<close>. The hash of a string is salted with a value drawn when the
  process starts, so it is the parameter \<open>str_hash\<close> of the running process. What
  \<^verbatim>\<open>hash\<close> does on any other scalar is the parameter \<open>other_hash\<close> of the running
  process as well: it may depend on the process (the hash of \<^verbatim>\<open>None\<close> comes from an
  address, the hash of bytes is salted) and it may raise \<^verbatim>\<open>TypeError\<close> (a set is
  unhashable). The hash of a tuple is computed from the hashes of its elements by a
  fixed function, the parameter \<open>tuple_hash\<close>. Lists and dicts are unhashable:
  \<^verbatim>\<open>TypeError\<close>.
\<close>

definition int_hash :: "int \<Rightarrow> int" where
  "int_hash n =
     (let h = sgn n * (\<bar>n\<bar> mod (2 ^ 61 - 1)) in if h = - 1 then - 2 else h)"

fun first_error :: "(error + 'a) list \<Rightarrow> error + 'a list" where
  "first_error [] = Inr []"
| "first_error (Inl e # rs) = Inl e"
| "first_error (Inr x # rs) = (case first_error rs of Inl e \<Rightarrow> Inl e | Inr xs \<Rightarrow> Inr (x # xs))"

fun py_hash ::
  "(string \<Rightarrow> int) \<Rightarrow> ('o \<Rightarrow> error + int) \<Rightarrow> (int list \<Rightarrow> int) \<Rightarrow> 'o pyval \<Rightarrow> error + int"
where
  "py_hash str_hash other_hash tuple_hash (PInt n) = Inr (int_hash n)"
| "py_hash str_hash other_hash tuple_hash (PStr s) = Inr (str_hash s)"
| "py_hash str_hash other_hash tuple_hash (POther x) = other_hash x"
| "py_hash str_hash other_hash tuple_hash (PTuple vs) =
     (case first_error (map (py_hash str_hash other_hash tuple_hash) vs) of
        Inl e \<Rightarrow> Inl e
      | Inr hs \<Rightarrow> Inr (tuple_hash hs))"
| "py_hash str_hash other_hash tuple_hash (PList vs) = Inl (TypeError ''list'')"
| "py_hash str_hash other_hash tuple_hash (PDict kvs) = Inl (TypeError ''dict'')"

text \<open>\<^verbatim>\<open>str\<close> of an integer: its decimal digits, after a minus sign when it is negative.\<close>

definition digit_char :: "nat \<Rightarrow> char" where
  "digit_char d = char_of (48 + d)"

function str_nat :: "nat \<Rightarrow> string" where
  "str_nat n = (if n < 10 then [digit_char n] else str_nat (n div 10) @ [digit_char (n mod 10)])"
  by pat_completeness auto
termination
  by (relation "measure id") auto

definition str_int :: "int \<Rightarrow> string" where
  "str_int i = (if i < 0 then CHR ''-'' # str_nat (nat (- i)) else str_nat (nat i))"

text \<open>\<^verbatim>\<open>config_hash\<close>: \<^verbatim>\<open>str(hash(normalize_data(config)))\<close>.\<close>

definition config_hash ::
  "(string \<Rightarrow> int) \<Rightarrow> ('o \<Rightarrow> error + int) \<Rightarrow> (int list \<Rightarrow> int) \<Rightarrow> 'o pyval \<Rightarrow> error + string"
where
  "config_hash str_hash other_hash tuple_hash config =
     (case py_hash str_hash other_hash tuple_hash (normalize_data config) of
        Inl e \<Rightarrow> Inl e
      | Inr h \<Rightarrow> Inr (str_int h))"


text \<open>
  The strings that occur in a value, as dict keys or as values, and the other scalars
  that occur in it.
\<close>

fun strings_of :: "'o pyval \<Rightarrow> string set" where
  "strings_of (PInt n) = {}"
| "strings_of (PStr s) = {s}"
| "strings_of (POther x) = {}"
| "strings_of (PList vs) = (\<Union>v\<in>set vs. strings_of v)"
| "strings_of (PTuple vs) = (\<Union>v\<in>set vs. strings_of v)"
| "strings_of (PDict kvs) = fst ` set kvs \<union> (\<Union>kv\<in>set kvs. strings_of (snd kv))"

fun others_of :: "'o pyval \<Rightarrow> 'o set" where
  "others_of (PInt n) = {}"
| "others_of (PStr s) = {}"
| "others_of (POther x) = {x}"
| "others_of (PList vs) = (\<Union>v\<in>set vs. others_of v)"
| "others_of (PTuple vs) = (\<Union>v\<in>set vs. others_of v)"
| "others_of (PDict kvs) = (\<Union>kv\<in>set kvs. others_of (snd kv))"

section \<open>Result keys\<close>

text \<open>
  \<^verbatim>\<open>Scheduler.build_result_key\<close>. \<^verbatim>\<open>Result.build_key\<close> belongs to the assemblyline
  package and is the parameter \<open>build_key\<close>, with its keyword arguments in the order
  \<^verbatim>\<open>service_name\<close>, \<^verbatim>\<open>version\<close>, \<^verbatim>\<open>file_hash\<close>, \<^verbatim>\<open>conf_key\<close>. The version passed is the
  literal \<^verbatim>\<open>'0'\<close>, under the comment \<^verbatim>\<open>TODO get service version from config\<close>.
\<close>

definition build_result_key ::
  "(string \<Rightarrow> string \<Rightarrow> string \<Rightarrow> string \<Rightarrow> 'key) \<Rightarrow> string \<Rightarrow> string \<Rightarrow> string \<Rightarrow> 'key"
where
  "build_result_key build_key file_hash service_name conf_hash =
     build_key service_name ''0'' file_hash conf_hash"

section \<open>Cached documents\<close>













section \<open>Example registries\<close>

text \<open>
  The registry of the specification's scenario: one service of an ordinary category in
  the first stage and one system service in the last, both accepting every file type.
\<close>

definition extract_service :: service where
  "extract_service = \<lparr>name = ''extract'', category = ''static'', stage = ''pre'',
     accepts = ''.*'', rejects = [], failure_limit = 5\<rparr>"

definition sync_service :: service where
  "sync_service = \<lparr>name = ''sync'', category = ''system'', stage = ''post'',
     accepts = ''.*'', rejects = [], failure_limit = 5\<rparr>"

text \<open>A service that bears the name of its own category.\<close>

definition static_service :: service where
  "static_service = \<lparr>name = ''static'', category = ''static'', stage = ''pre'',
     accepts = ''.*'', rejects = [], failure_limit = 5\<rparr>"


text \<open>A service whose stage is not in the Stage List used with it.\<close>

definition misplaced_service :: service where
  "misplaced_service = \<lparr>name = ''extract'', category = ''static'', stage = ''unknown'',
     accepts = ''.*'', rejects = [], failure_limit = 5\<rparr>"

text \<open>
  Two services where the name of the second is the category of the first: the name
  \<^verbatim>\<open>static\<close> is both a category and a service.
\<close>

definition av_service :: service where
  "av_service = \<lparr>name = ''antivirus'', category = ''static'', stage = ''pre'',
     accepts = ''.*'', rejects = [], failure_limit = 5\<rparr>"

definition shadowed_service :: service where
  "shadowed_service = \<lparr>name = ''static'', category = ''extra'', stage = ''pre'',
     accepts = ''.*'', rejects = [], failure_limit = 5\<rparr>"

text \<open>
  Two services where the one-character name \<^verbatim>\<open>a\<close> is a service of the category \<^verbatim>\<open>ab\<close>
  and also the category of the second service.
\<close>

definition a_service :: service where
  "a_service = \<lparr>name = ''a'', category = ''ab'', stage = ''pre'',
     accepts = ''.*'', rejects = [], failure_limit = 5\<rparr>"

definition member_service :: service where
  "member_service = \<lparr>name = ''svc2'', category = ''a'', stage = ''pre'',
     accepts = ''.*'', rejects = [], failure_limit = 5\<rparr>"





section \<open>Properties of category expansion\<close>

text \<open>
  The loop appends a name to \<^verbatim>\<open>found_services\<close> only on the branch where the name is
  not a key of the categories: by fixpoint induction, whatever the loop returns holds no
  category name when it started with none.
\<close>

lemma expand_loop_found_not_category:
  assumes ret: "expand_loop cats svcs found_services seen = Some r"
  shows "(\<forall>n\<in>set found_services. map_of cats n = None) \<longrightarrow> (\<forall>n\<in>set r. map_of cats n = None)"
proof (rule expand_loop.raw_induct
    [where P = "\<lambda>cats svcs found_services seen r.
       (\<forall>n\<in>set found_services. map_of cats n = None) \<longrightarrow> (\<forall>n\<in>set r. map_of cats n = None)",
     OF _ ret], goal_cases)
  case (1 f cats svcs found_services seen r)
  show ?case
  proof
    assume found: "\<forall>n\<in>set found_services. map_of cats n = None"
    show "\<forall>n\<in>set r. map_of cats n = None"
    proof (cases "svcs = []")
      case True
      with 1(2) found show ?thesis by simp
    next
      case False
      show ?thesis
      proof (cases "map_of cats (last svcs)")
        case None
        with False 1(2) have call: "f cats (butlast svcs) (found_services @ [last svcs]) seen = Some r"
          by (simp add: Let_def)
        have "\<forall>n\<in>set (found_services @ [last svcs]). map_of cats n = None"
          using None found by simp
        with 1(1)[OF call] show ?thesis by blast
      next
        case (Some members)
        show ?thesis
        proof (cases "last svcs \<in> seen")
          case True
          with Some False 1(2) have "f cats (butlast svcs) found_services seen = Some r"
            by (simp add: Let_def)
          from 1(1)[OF this] found show ?thesis by blast
        next
          case notin: False
          with Some False 1(2) have
            "f cats (butlast svcs @ members) found_services (seen \<union> (\<lambda>c. [c]) ` set (last svcs)) = Some r"
            by (simp add: Let_def)
          from 1(1)[OF this] found show ?thesis by blast
        qed
      qed
    qed
  qed
qed

lemma eval_shadowed:
  "expand_categories [av_service, shadowed_service] (Some [''static'']) = Some [''antivirus'']"
  by code_simp

lemma categories_shadowed:
  "categories [av_service, shadowed_service] = [(''static'', [''antivirus'']), (''extra'', [''static''])]"
  by code_simp

text \<open>
  For every selector list, the list that \<^verbatim>\<open>expand_categories\<close> returns holds no name
  that is a key of the categories mapping, also when a registered service bears that
  name: a selector that names a category is never reported as a service.
\<close>

lemma expand_categories_returns_no_category_name:
  assumes "expand_categories items selectors = Some r"
  shows "set r \<inter> fst ` set (categories items) = {}"
proof (cases selectors)
  case None
  with assms show ?thesis by (simp add: expand_categories_def)
next
  case (Some svcs)
  with assms obtain found_services where
    loop: "expand_loop (categories items) svcs [] {} = Some found_services"
    and r: "r = remdups found_services"
    by (auto simp: expand_categories_def)
  from expand_loop_found_not_category[OF loop]
  have "\<forall>n\<in>set found_services. map_of (categories items) n = None" by simp
  with r show ?thesis by (auto simp: map_of_eq_None_iff)
qed

lemma expand_categories_returns_no_category_name_example:
  "expand_categories [av_service, shadowed_service] (Some [''static'']) = Some [''antivirus'']
   \<and> name shadowed_service = ''static''
   \<and> ''static'' \<in> fst ` set (categories [av_service, shadowed_service])
   \<and> set [''antivirus''] \<inter> fst ` set (categories [av_service, shadowed_service]) = {}"
proof -
  have nm: "name shadowed_service = ''static''"
    by (simp add: shadowed_service_def)
  have key: "''static'' \<in> fst ` set (categories [av_service, shadowed_service])"
    by (simp add: categories_shadowed)
  from expand_categories_returns_no_category_name[OF eval_shadowed] eval_shadowed nm key
  show ?thesis by blast
qed

text \<open>
  A category whose own name is among its members, with a name of more than one
  character, is expanded again and again: the characters that \<^verbatim>\<open>update\<close> puts into
  \<^verbatim>\<open>seen_categories\<close> never equal the name. No run of the loop from such a state returns.
\<close>

lemma expand_loop_self_member_diverges:
  assumes ret: "expand_loop cats svcs found_services seen = Some r"
  shows "\<not> (map_of cats ''static'' = Some [''static''] \<and> svcs = [''static''] \<and> (\<forall>s\<in>seen. length s \<le> 1))"
proof (rule expand_loop.raw_induct
    [where P = "\<lambda>cats svcs found_services seen r.
       \<not> (map_of cats ''static'' = Some [''static''] \<and> svcs = [''static''] \<and> (\<forall>s\<in>seen. length s \<le> 1))",
     OF _ ret], goal_cases)
  case (1 f cats svcs found_services seen r)
  show ?case
  proof
    assume inv: "map_of cats ''static'' = Some [''static''] \<and> svcs = [''static''] \<and> (\<forall>s\<in>seen. length s \<le> 1)"
    then have notin: "''static'' \<notin> seen" by auto
    let ?seen' = "seen \<union> (\<lambda>c. [c]) ` set ''static''"
    from inv notin 1(2) have call: "f cats [''static''] found_services ?seen' = Some r"
      by (simp add: Let_def)
    have "map_of cats ''static'' = Some [''static''] \<and> [''static''] = [''static''] \<and> (\<forall>s\<in>?seen'. length s \<le> 1)"
      using inv by auto
    with 1(1)[OF call] show False by blast
  qed
qed

lemma categories_static: "categories [static_service] = [(''static'', [''static''])]"
  by code_simp

text \<open>
  Claim C2 (termination of \<^verbatim>\<open>expand_categories\<close> on cyclic categories). On the registry
  of one service named \<^verbatim>\<open>static\<close> of category \<^verbatim>\<open>static\<close>, expanding the selector
  \<^verbatim>\<open>static\<close> never returns.
\<close>

theorem expand_categories_self_named_category_diverges:
  "expand_categories [static_service] (Some [''static'']) = None"
proof -
  have "expand_loop [(''static'', [''static''])] [''static''] [] {} = None"
  proof (cases "expand_loop [(''static'', [''static''])] [''static''] [] {}")
    case None
    then show ?thesis .
  next
    case (Some r)
    from expand_loop_self_member_diverges[OF Some] show ?thesis by simp
  qed
  then show ?thesis
    by (simp add: expand_categories_def categories_static)
qed

lemma categories_one_character:
  "categories [a_service, member_service] = [(''ab'', [''a'']), (''a'', [''svc2''])]"
  by code_simp

text \<open>
  Claim C9 (a name shared by a category and a service is replaced by the members of the
  category). The name \<^verbatim>\<open>a\<close> is a service of the category \<^verbatim>\<open>ab\<close> and the category of
  the service \<^verbatim>\<open>svc2\<close>. Expanding the selectors \<^verbatim>\<open>a\<close> and \<^verbatim>\<open>ab\<close> pops \<^verbatim>\<open>ab\<close> first, whose
  characters go into \<^verbatim>\<open>seen_categories\<close>; the category \<^verbatim>\<open>a\<close> then counts as seen and is
  dropped without its member: the result is empty.
\<close>

theorem expand_categories_drops_members_of_seen_character:
  "name a_service = ''a'' \<and>
   map_of (categories [a_service, member_service]) ''a'' = Some [''svc2''] \<and>
   expand_categories [a_service, member_service] (Some [''a'', ''ab'']) = Some []"
proof -
  have "name a_service = ''a''" by (simp add: a_service_def)
  moreover have "map_of (categories [a_service, member_service]) ''a'' = Some [''svc2'']"
    by (simp add: categories_one_character)
  moreover have "expand_categories [a_service, member_service] (Some [''a'', ''ab'']) = Some []"
    by code_simp
  ultimately show ?thesis by blast
qed

section \<open>Properties of the scheduling loop\<close>

text \<open>
  \<^verbatim>\<open>list.index\<close> answers a position inside the list, where the element is, and fails
  exactly on an element that is not in the list.
\<close>

lemma index_of_Some: "index_of xs x = Some i \<Longrightarrow> i < length xs \<and> xs ! i = x"
  by (induction xs arbitrary: i) (auto split: if_splits)

lemma index_of_None: "index_of xs x = None \<longleftrightarrow> x \<notin> set xs"
  by (induction xs) auto

lemma stage_index_Inr: "stage_index stages stg = Inr i \<longleftrightarrow> index_of stages stg = Some i"
  by (simp add: stage_index_def split: option.splits)

lemma schedule_loop_lookup:
  assumes "schedule_loop rm stages all_services ft names (sched, warned) = Inr (sched', warned')"
    and "length sched = length stages"
  shows "length sched' = length stages \<and>
    (\<forall>i<length stages. \<forall>n. (sched' ! i) n =
       (if n \<in> set names \<and>
           (\<exists>ser. map_of all_services n = Some ser \<and> rm (accepts ser) ft = Some True \<and>
                  (rejects ser = [] \<or> rm (rejects ser) ft = Some False) \<and>
                  index_of stages (stage ser) = Some i)
        then map_of all_services n else (sched ! i) n))"
  using assms
proof (induction names arbitrary: sched warned)
  case Nil
  then show ?case by simp
next
  case (Cons nm names)
  show ?case
  proof (cases "map_of all_services nm")
    case None
    with Cons.prems have "schedule_loop rm stages all_services ft names (sched, warned @ [nm]) = Inr (sched', warned')"
      by simp
    from Cons.IH[OF this Cons.prems(2)] None show ?thesis by auto
  next
    case (Some ser)
    from Some Cons.prems(1) obtain acc rej where
      acc: "rm (accepts ser) ft = Some acc" and rej: "rm (rejects ser) ft = Some rej"
      by (auto split: option.splits)
    show ?thesis
    proof (cases "acc \<and> (rejects ser = [] \<or> \<not> rej)")
      case False
      with Some acc rej Cons.prems have "schedule_loop rm stages all_services ft names (sched, warned) = Inr (sched', warned')"
        by simp
      from Cons.IH[OF this Cons.prems(2)] False Some acc rej show ?thesis by auto
    next
      case True
      with Some acc rej Cons.prems(1) obtain j where
        j: "index_of stages (stage ser) = Some j" and
        call: "schedule_loop rm stages all_services ft names (sched[j := (sched ! j)(nm \<mapsto> ser)], warned) = Inr (sched', warned')"
        by (auto simp: stage_index_def split: option.splits)
      have len: "length (sched[j := (sched ! j)(nm \<mapsto> ser)]) = length stages"
        using Cons.prems(2) by simp
      from index_of_Some[OF j] have jlt: "j < length sched" using Cons.prems(2) by simp
      note IH = Cons.IH[OF call len]
      show ?thesis
      proof (intro conjI allI impI)
        show "length sched' = length stages" using IH by simp
      next
        fix i n assume i: "i < length stages"
        with IH have eq: "(sched' ! i) n =
         (if n \<in> set names \<and>
           (\<exists>ser. map_of all_services n = Some ser \<and> rm (accepts ser) ft = Some True \<and>
                  (rejects ser = [] \<or> rm (rejects ser) ft = Some False) \<and>
                  index_of stages (stage ser) = Some i)
          then map_of all_services n else (sched[j := (sched ! j)(nm \<mapsto> ser)] ! i) n)" by blast
        have upd: "(sched[j := (sched ! j)(nm \<mapsto> ser)] ! i) n = (if i = j \<and> n = nm then Some ser else (sched ! i) n)"
          using jlt by (auto simp: nth_list_update)
        show "(sched' ! i) n =
          (if n \<in> set (nm # names) \<and>
           (\<exists>ser. map_of all_services n = Some ser \<and> rm (accepts ser) ft = Some True \<and>
                  (rejects ser = [] \<or> rm (rejects ser) ft = Some False) \<and>
                  index_of stages (stage ser) = Some i)
          then map_of all_services n else (sched ! i) n)"
          unfolding eq upd using Some acc rej True j by auto
      qed
    qed
  qed
qed

lemma schedule_loop_warned:
  assumes "schedule_loop rm stages all_services ft names (sched, warned) = Inr (sched', warned')"
  shows "warned' = warned @ filter (\<lambda>n. map_of all_services n = None) names"
  using assms
proof (induction names arbitrary: sched warned)
  case Nil
  then show ?case by simp
next
  case (Cons nm names)
  show ?case
  proof (cases "map_of all_services nm")
    case None
    with Cons.prems have "schedule_loop rm stages all_services ft names (sched, warned @ [nm]) = Inr (sched', warned')"
      by simp
    from Cons.IH[OF this] None show ?thesis by simp
  next
    case (Some ser)
    with Cons.prems obtain s where
      "schedule_loop rm stages all_services ft names (s, warned) = Inr (sched', warned')"
      by (auto split: option.splits if_splits sum.splits)
    from Cons.IH[OF this] Some show ?thesis by simp
  qed
qed

lemma schedule_loop_returns:
  assumes "\<forall>n\<in>set names. \<forall>ser. map_of all_services n = Some ser \<longrightarrow>
      (\<exists>acc rej. rm (accepts ser) ft = Some acc \<and> rm (rejects ser) ft = Some rej \<and>
         (acc \<and> (rejects ser = [] \<or> \<not> rej) \<longrightarrow> stage ser \<in> set stages))"
  shows "\<exists>r. schedule_loop rm stages all_services ft names (sched, warned) = Inr r"
  using assms
proof (induction names arbitrary: sched warned)
  case Nil
  then show ?case by simp
next
  case (Cons nm names)
  then have rest: "\<And>s w. \<exists>r. schedule_loop rm stages all_services ft names (s, w) = Inr r"
    by simp
  show ?case
  proof (cases "map_of all_services nm")
    case None
    with rest show ?thesis by simp
  next
    case (Some ser)
    with Cons.prems obtain acc rej where
      ar: "rm (accepts ser) ft = Some acc" "rm (rejects ser) ft = Some rej"
        "acc \<and> (rejects ser = [] \<or> \<not> rej) \<longrightarrow> stage ser \<in> set stages"
      by fastforce
    show ?thesis
    proof (cases "acc \<and> (rejects ser = [] \<or> \<not> rej)")
      case True
      with ar obtain j where "index_of stages (stage ser) = Some j"
        using index_of_None[of stages "stage ser"] by (cases "index_of stages (stage ser)") auto
      with Some ar True rest show ?thesis by (simp add: stage_index_def)
    next
      case False
      then have "\<not> (acc \<and> (rejects ser = [] \<or> \<not> rej))" .
      with rest[of sched warned] show ?thesis
        by (simp only: schedule_loop.simps Some ar option.case if_False)
    qed
  qed
qed


lemma build_schedule_returned:
  assumes "build_schedule rm stages items sub ft = Some (Inr (sched, warned))"
  obtains selected excluded where
    "expand_categories items (excluded_categories sub) = Some excluded"
    "(if selected_categories sub = None \<or> selected_categories sub = Some []
      then Some (map fst (services items))
      else expand_categories items (selected_categories sub)) = Some selected"
    "schedule_loop rm stages (services items) ft
       (candidate_names (add_system_services (services items) selected) excluded)
       (replicate (length stages) Map.empty, []) = Inr (sched, warned)"
  using assms unfolding build_schedule_def Let_def
  by (auto split: option.splits)

lemma build_schedule_bucket:
  assumes ret: "build_schedule rm stages items sub ft = Some (Inr (sched, warned))"
  shows "length sched = length stages"
    and "i < length stages \<Longrightarrow> (sched ! i) n = Some ser \<Longrightarrow>
         map_of (services items) n = Some ser \<and> rm (accepts ser) ft = Some True \<and>
         (rejects ser = [] \<or> rm (rejects ser) ft = Some False) \<and>
         index_of stages (stage ser) = Some i"
proof -
  from ret obtain selected excluded where
    loop: "schedule_loop rm stages (services items) ft
       (candidate_names (add_system_services (services items) selected) excluded)
       (replicate (length stages) Map.empty, []) = Inr (sched, warned)"
    by (rule build_schedule_returned)
  have len0: "length (replicate (length stages) (Map.empty :: string \<rightharpoonup> service)) = length stages"
    by simp
  note L = schedule_loop_lookup[OF loop len0]
  from L show "length sched = length stages" by (rule conjunct1)
  assume i: "i < length stages" and b: "(sched ! i) n = Some ser"
  have "(sched ! i) n =
       (if n \<in> set (candidate_names (add_system_services (services items) selected) excluded) \<and>
           (\<exists>ser. map_of (services items) n = Some ser \<and> rm (accepts ser) ft = Some True \<and>
                  (rejects ser = [] \<or> rm (rejects ser) ft = Some False) \<and>
                  index_of stages (stage ser) = Some i)
        then map_of (services items) n else (replicate (length stages) Map.empty ! i) n)"
    by (rule L[THEN conjunct2, rule_format, OF i])
  with b i have placed: "\<exists>ser. map_of (services items) n = Some ser \<and> rm (accepts ser) ft = Some True \<and>
                  (rejects ser = [] \<or> rm (rejects ser) ft = Some False) \<and>
                  index_of stages (stage ser) = Some i"
      and same: "map_of (services items) n = Some ser"
    by (simp_all split: if_splits)
  from placed same show "map_of (services items) n = Some ser \<and> rm (accepts ser) ft = Some True \<and>
         (rejects ser = [] \<or> rm (rejects ser) ft = Some False) \<and>
         index_of stages (stage ser) = Some i"
    by simp
qed

section \<open>Properties of the schedule\<close>

lemmas eval_defs = build_schedule_def services_def categories_def
      expand_categories_def expand_loop.simps py_re_match_def metachars_def system_category_def
      stage_index_def add_system_services_def candidate_names_def

lemma eval_three_stages:
  "build_schedule py_re_match [''pre'', ''core'', ''post''] [extract_service, sync_service]
     \<lparr>selected_categories = None, excluded_categories = None\<rparr> ''text''
   = Some (Inr ([[''extract'' \<mapsto> extract_service], Map.empty, [''sync'' \<mapsto> sync_service]], []))"
  by (simp add: eval_defs extract_service_def sync_service_def)



lemma build_schedule_lookup:
  assumes ret: "build_schedule rm stages items sub ft = Some (Inr (sched, warned))"
    and exc: "expand_categories items (excluded_categories sub) = Some excluded"
    and sel: "(if selected_categories sub = None \<or> selected_categories sub = Some []
               then Some (map fst (services items))
               else expand_categories items (selected_categories sub)) = Some selected"
    and i: "i < length stages"
  shows "(sched ! i) n =
       (if n \<in> set (candidate_names (add_system_services (services items) selected) excluded) \<and>
           (\<exists>ser. map_of (services items) n = Some ser \<and> rm (accepts ser) ft = Some True \<and>
                  (rejects ser = [] \<or> rm (rejects ser) ft = Some False) \<and>
                  index_of stages (stage ser) = Some i)
        then map_of (services items) n else None)"
proof -
  from ret obtain selected' excluded' where
    exc': "expand_categories items (excluded_categories sub) = Some excluded'" and
    sel': "(if selected_categories sub = None \<or> selected_categories sub = Some []
      then Some (map fst (services items))
      else expand_categories items (selected_categories sub)) = Some selected'" and
    loop': "schedule_loop rm stages (services items) ft
       (candidate_names (add_system_services (services items) selected') excluded')
       (replicate (length stages) Map.empty, []) = Inr (sched, warned)"
    by (rule build_schedule_returned)
  from exc exc' have e: "excluded' = excluded" by simp
  from sel sel' have s: "selected' = selected" by simp
  have len0: "length (replicate (length stages) (Map.empty :: string \<rightharpoonup> service)) = length stages"
    by simp
  from loop' have loop: "schedule_loop rm stages (services items) ft
       (candidate_names (add_system_services (services items) selected) excluded)
       (replicate (length stages) Map.empty, []) = Inr (sched, warned)"
    unfolding e s .
  have blank: "(replicate (length stages) (Map.empty :: string \<rightharpoonup> service) ! i) n = None"
    using i by simp
  have "(sched ! i) n =
       (if n \<in> set (candidate_names (add_system_services (services items) selected) excluded) \<and>
           (\<exists>ser. map_of (services items) n = Some ser \<and> rm (accepts ser) ft = Some True \<and>
                  (rejects ser = [] \<or> rm (rejects ser) ft = Some False) \<and>
                  index_of stages (stage ser) = Some i)
        then map_of (services items) n else (replicate (length stages) Map.empty ! i) n)"
    by (rule schedule_loop_lookup[OF loop len0, THEN conjunct2, rule_format, OF i])
  then show ?thesis unfolding blank .
qed

lemma build_schedule_runs_loop:
  assumes "expand_categories items (excluded_categories sub) = Some excluded"
    and "(if selected_categories sub = None \<or> selected_categories sub = Some []
          then Some (map fst (services items))
          else expand_categories items (selected_categories sub)) = Some selected"
  shows "build_schedule rm stages items sub ft =
      Some (schedule_loop rm stages (services items) ft
              (candidate_names (add_system_services (services items) selected) excluded)
              (replicate (length stages) Map.empty, []))"
  using assms unfolding build_schedule_def Let_def by simp

lemma eval_unstaged:
  "build_schedule py_re_match [''pre''] [extract_service, sync_service]
     \<lparr>selected_categories = None, excluded_categories = None\<rparr> ''text''
   = Some (Inl (ValueError ''post''))"
  by (simp add: eval_defs extract_service_def sync_service_def)

text \<open>
  Claim C4, as the code has it. Every schedule that \<^verbatim>\<open>build_schedule\<close> returns has one
  bucket per stage of the Stage List, in its order. A service found in a bucket is the
  registered service of that name, the bucket is the one of its configured stage and no
  other bucket holds the name, and its reject pattern, when it has one, does not match
  the file type. A stage that no registered service names has an empty bucket. In all, a
  bucket holds exactly the candidates (the selected names and the system services, less
  the excluded names) that are registered, pass the accept and reject patterns and are
  configured for its stage. And \<^verbatim>\<open>build_schedule\<close> does return a schedule when both
  expansions return, the patterns of every registered candidate compile and every
  registered candidate that passes them names a stage of the Stage List.
\<close>

theorem build_schedule_buckets_by_stage:
  "(build_schedule rm stages items sub ft = Some (Inr (sched, warned)) \<longrightarrow>
      length sched = length stages \<and>
      (\<forall>i<length stages. \<forall>n ser. (sched ! i) n = Some ser \<longrightarrow>
          map_of (services items) n = Some ser \<and>
          stage_index stages (stage ser) = Inr i \<and> stages ! i = stage ser \<and>
          (\<forall>j<length stages. n \<in> dom (sched ! j) \<longrightarrow> j = i) \<and>
          \<not> (rejects ser \<noteq> [] \<and> rm (rejects ser) ft = Some True)) \<and>
      (\<forall>i<length stages.
          (\<forall>n ser. map_of (services items) n = Some ser \<longrightarrow> stage ser \<noteq> stages ! i) \<longrightarrow>
          sched ! i = Map.empty) \<and>
      (\<forall>excluded selected.
          expand_categories items (excluded_categories sub) = Some excluded \<and>
          (if selected_categories sub = None \<or> selected_categories sub = Some []
           then Some (map fst (services items))
           else expand_categories items (selected_categories sub)) = Some selected \<longrightarrow>
          (\<forall>i<length stages. \<forall>n ser.
             (sched ! i) n = Some ser \<longleftrightarrow>
               n \<in> set (candidate_names (add_system_services (services items) selected) excluded) \<and>
               map_of (services items) n = Some ser \<and> rm (accepts ser) ft = Some True \<and>
               (rejects ser = [] \<or> rm (rejects ser) ft = Some False) \<and>
               stage_index stages (stage ser) = Inr i))) \<and>
   (expand_categories items (excluded_categories sub) = Some excluded' \<and>
    (if selected_categories sub = None \<or> selected_categories sub = Some []
     then Some (map fst (services items))
     else expand_categories items (selected_categories sub)) = Some selected' \<and>
    (\<forall>n\<in>set (candidate_names (add_system_services (services items) selected') excluded').
       \<forall>ser. map_of (services items) n = Some ser \<longrightarrow>
         (\<exists>acc rej. rm (accepts ser) ft = Some acc \<and> rm (rejects ser) ft = Some rej \<and>
            (acc \<and> (rejects ser = [] \<or> \<not> rej) \<longrightarrow> stage ser \<in> set stages))) \<longrightarrow>
    (\<exists>sched' warned'. build_schedule rm stages items sub ft = Some (Inr (sched', warned'))))"
proof (rule conjI)
  show "build_schedule rm stages items sub ft = Some (Inr (sched, warned)) \<longrightarrow>
      length sched = length stages \<and>
      (\<forall>i<length stages. \<forall>n ser. (sched ! i) n = Some ser \<longrightarrow>
          map_of (services items) n = Some ser \<and>
          stage_index stages (stage ser) = Inr i \<and> stages ! i = stage ser \<and>
          (\<forall>j<length stages. n \<in> dom (sched ! j) \<longrightarrow> j = i) \<and>
          \<not> (rejects ser \<noteq> [] \<and> rm (rejects ser) ft = Some True)) \<and>
      (\<forall>i<length stages.
          (\<forall>n ser. map_of (services items) n = Some ser \<longrightarrow> stage ser \<noteq> stages ! i) \<longrightarrow>
          sched ! i = Map.empty) \<and>
      (\<forall>excluded selected.
          expand_categories items (excluded_categories sub) = Some excluded \<and>
          (if selected_categories sub = None \<or> selected_categories sub = Some []
           then Some (map fst (services items))
           else expand_categories items (selected_categories sub)) = Some selected \<longrightarrow>
          (\<forall>i<length stages. \<forall>n ser.
             (sched ! i) n = Some ser \<longleftrightarrow>
               n \<in> set (candidate_names (add_system_services (services items) selected) excluded) \<and>
               map_of (services items) n = Some ser \<and> rm (accepts ser) ft = Some True \<and>
               (rejects ser = [] \<or> rm (rejects ser) ft = Some False) \<and>
               stage_index stages (stage ser) = Inr i))"
  proof (intro conjI allI impI)
    assume ret: "build_schedule rm stages items sub ft = Some (Inr (sched, warned))"
    show "length sched = length stages" by (rule build_schedule_bucket(1)[OF ret])
  next
    fix i n ser
    assume ret: "build_schedule rm stages items sub ft = Some (Inr (sched, warned))"
      and i: "i < length stages" and b: "(sched ! i) n = Some ser"
    note B = build_schedule_bucket(2)[OF ret i b]
    from B show "map_of (services items) n = Some ser" by simp
    from B show "stage_index stages (stage ser) = Inr i" by (simp add: stage_index_def)
    from B have "index_of stages (stage ser) = Some i" by simp
    from index_of_Some[OF this] show "stages ! i = stage ser" by simp
    from B show "\<not> (rejects ser \<noteq> [] \<and> rm (rejects ser) ft = Some True)" by auto
    fix j assume j: "j < length stages" and d: "n \<in> dom (sched ! j)"
    then obtain ser' where "(sched ! j) n = Some ser'" by auto
    from build_schedule_bucket(2)[OF ret j this] B show "j = i" by simp
  next
    fix i
    assume ret: "build_schedule rm stages items sub ft = Some (Inr (sched, warned))"
      and i: "i < length stages"
      and none: "\<forall>n ser. map_of (services items) n = Some ser \<longrightarrow> stage ser \<noteq> stages ! i"
    show "sched ! i = Map.empty"
    proof
      fix n
      show "(sched ! i) n = None"
      proof (cases "(sched ! i) n")
        case None
        then show ?thesis .
      next
        case (Some ser)
        note B = build_schedule_bucket(2)[OF ret i Some]
        from B have "index_of stages (stage ser) = Some i" by simp
        from index_of_Some[OF this] have "stages ! i = stage ser" by simp
        moreover from B have "map_of (services items) n = Some ser" by simp
        ultimately show ?thesis using none by auto
      qed
    qed
  next
    fix excluded selected i n ser
    assume ret: "build_schedule rm stages items sub ft = Some (Inr (sched, warned))"
      and es: "expand_categories items (excluded_categories sub) = Some excluded \<and>
          (if selected_categories sub = None \<or> selected_categories sub = Some []
           then Some (map fst (services items))
           else expand_categories items (selected_categories sub)) = Some selected"
      and i: "i < length stages"
    note L = build_schedule_lookup[OF ret es[THEN conjunct1] es[THEN conjunct2] i, of n]
    show "(sched ! i) n = Some ser \<longleftrightarrow>
               n \<in> set (candidate_names (add_system_services (services items) selected) excluded) \<and>
               map_of (services items) n = Some ser \<and> rm (accepts ser) ft = Some True \<and>
               (rejects ser = [] \<or> rm (rejects ser) ft = Some False) \<and>
               stage_index stages (stage ser) = Inr i"
      unfolding L stage_index_Inr by auto
  qed
next
  show "expand_categories items (excluded_categories sub) = Some excluded' \<and>
    (if selected_categories sub = None \<or> selected_categories sub = Some []
     then Some (map fst (services items))
     else expand_categories items (selected_categories sub)) = Some selected' \<and>
    (\<forall>n\<in>set (candidate_names (add_system_services (services items) selected') excluded').
       \<forall>ser. map_of (services items) n = Some ser \<longrightarrow>
         (\<exists>acc rej. rm (accepts ser) ft = Some acc \<and> rm (rejects ser) ft = Some rej \<and>
            (acc \<and> (rejects ser = [] \<or> \<not> rej) \<longrightarrow> stage ser \<in> set stages))) \<longrightarrow>
    (\<exists>sched' warned'. build_schedule rm stages items sub ft = Some (Inr (sched', warned')))"
  proof
    assume h: "expand_categories items (excluded_categories sub) = Some excluded' \<and>
    (if selected_categories sub = None \<or> selected_categories sub = Some []
     then Some (map fst (services items))
     else expand_categories items (selected_categories sub)) = Some selected' \<and>
    (\<forall>n\<in>set (candidate_names (add_system_services (services items) selected') excluded').
       \<forall>ser. map_of (services items) n = Some ser \<longrightarrow>
         (\<exists>acc rej. rm (accepts ser) ft = Some acc \<and> rm (rejects ser) ft = Some rej \<and>
            (acc \<and> (rejects ser = [] \<or> \<not> rej) \<longrightarrow> stage ser \<in> set stages)))"
    note bs = build_schedule_runs_loop[OF h[THEN conjunct1] h[THEN conjunct2, THEN conjunct1],
        of rm stages ft]
    from schedule_loop_returns
      [of "candidate_names (add_system_services (services items) selected') excluded'"
          "services items" rm ft stages "replicate (length stages) Map.empty" "[]",
       OF h[THEN conjunct2, THEN conjunct2]]
    obtain r where "schedule_loop rm stages (services items) ft
        (candidate_names (add_system_services (services items) selected') excluded')
        (replicate (length stages) Map.empty, []) = Inr r" by blast
    with bs show "\<exists>sched' warned'. build_schedule rm stages items sub ft = Some (Inr (sched', warned'))"
      by (cases r) simp
  qed
qed

theorem build_schedule_buckets_by_stage_witness:
  "build_schedule py_re_match [''pre'', ''core'', ''post''] [extract_service, sync_service]
     \<lparr>selected_categories = None, excluded_categories = None\<rparr> ''text''
   = Some (Inr ([[''extract'' \<mapsto> extract_service], Map.empty, [''sync'' \<mapsto> sync_service]], []))
   \<and> length [[''extract'' \<mapsto> extract_service], Map.empty, [''sync'' \<mapsto> sync_service]] = length [''pre'', ''core'', ''post'']
   \<and> stage_index [''pre'', ''core'', ''post''] (stage sync_service) = Inr 2
   \<and> [''pre'', ''core'', ''post''] ! 2 = stage sync_service
   \<and> ''sync'' \<in> set (candidate_names
          (add_system_services (services [extract_service, sync_service]) [''extract'', ''sync'']) [])
   \<and> ([[''extract'' \<mapsto> extract_service], Map.empty, [''sync'' \<mapsto> sync_service]] ! 2) ''sync''
        = Some sync_service
   \<and> (\<exists>sched' warned'.
        build_schedule py_re_match [''pre'', ''core'', ''post''] [extract_service, sync_service]
          \<lparr>selected_categories = None, excluded_categories = None\<rparr> ''text''
        = Some (Inr (sched', warned')))"
proof -
  let ?sub = "\<lparr>selected_categories = None, excluded_categories = None\<rparr>"
  let ?items = "[extract_service, sync_service]"
  let ?stages = "[''pre'', ''core'', ''post'']"
  let ?sched = "[[''extract'' \<mapsto> extract_service], Map.empty, [''sync'' \<mapsto> sync_service]]"
  have exc: "expand_categories ?items (excluded_categories ?sub) = Some []"
    by (simp add: expand_categories_def)
  have sel: "(if selected_categories ?sub = None \<or> selected_categories ?sub = Some []
               then Some (map fst (services ?items))
               else expand_categories ?items (selected_categories ?sub))
             = Some [''extract'', ''sync'']"
    by (simp add: services_def extract_service_def sync_service_def)
  have cands: "candidate_names (add_system_services (services ?items) [''extract'', ''sync'']) []
      = [''extract'', ''sync'']"
    by (simp add: eval_defs extract_service_def sync_service_def)
  have cand: "''sync'' \<in> set (candidate_names
          (add_system_services (services ?items) [''extract'', ''sync'']) [])"
    by (simp add: cands)
  have st: "stage_index ?stages (stage sync_service) = Inr 2"
    by (simp add: sync_service_def stage_index_def)
  have ok: "\<forall>n\<in>set (candidate_names (add_system_services (services ?items) [''extract'', ''sync'']) []).
       \<forall>ser. map_of (services ?items) n = Some ser \<longrightarrow>
         (\<exists>acc rej. py_re_match (accepts ser) ''text'' = Some acc \<and>
            py_re_match (rejects ser) ''text'' = Some rej \<and>
            (acc \<and> (rejects ser = [] \<or> \<not> rej) \<longrightarrow> stage ser \<in> set ?stages))"
    unfolding cands
    by (auto simp: services_def extract_service_def sync_service_def py_re_match_def metachars_def)
  note T = build_schedule_buckets_by_stage
    [of py_re_match ?stages ?items ?sub "''text''" ?sched "[]" "[]" "[''extract'', ''sync'']"]
  note T1 = T[THEN conjunct1, THEN mp, OF eval_three_stages]
  from T[THEN conjunct2, THEN mp, OF conjI[OF exc conjI[OF sel ok]]]
  have produced: "\<exists>sched' warned'.
        build_schedule py_re_match ?stages ?items ?sub ''text'' = Some (Inr (sched', warned'))" .
  from T1 have len: "length ?sched = length ?stages" by (rule conjunct1)
  have two: "2 < length ?stages" by simp
  note I = T1[THEN conjunct2, THEN conjunct2, THEN conjunct2, rule_format,
      OF conjI[OF exc sel] two, of "''sync''" sync_service]
  have pass: "py_re_match (accepts sync_service) ''text'' = Some True \<and>
      (rejects sync_service = [] \<or> py_re_match (rejects sync_service) ''text'' = Some False)"
    by (simp add: sync_service_def py_re_match_def metachars_def)
  have reg: "map_of (services ?items) ''sync'' = Some sync_service"
    by (simp add: services_def extract_service_def sync_service_def)
  from I cand reg pass st
  have bucket: "(?sched ! 2) ''sync'' = Some sync_service" by blast
  have "?stages ! 2 = stage sync_service"
    by (simp add: sync_service_def)
  with len bucket eval_three_stages st cand produced show ?thesis by blast
qed

text \<open>
  The claim as stated fails where no schedule is returned: with the Stage List
  \<^verbatim>\<open>['pre']\<close> and the scenario's registry, the system service names the stage \<^verbatim>\<open>post\<close>
  and \<^verbatim>\<open>build_schedule\<close> raises.
\<close>

theorem build_schedule_returns_no_schedule:
  "build_schedule py_re_match [''pre''] [extract_service, sync_service]
     \<lparr>selected_categories = None, excluded_categories = None\<rparr> ''text''
   = Some (Inl (ValueError ''post''))
   \<and> \<not> (\<exists>sched warned.
        build_schedule py_re_match [''pre''] [extract_service, sync_service]
          \<lparr>selected_categories = None, excluded_categories = None\<rparr> ''text''
        = Some (Inr (sched, warned)))"
  by (simp add: eval_unstaged)

text \<open>
  Claim C1 (system services cannot be excluded). The system services are appended to
  the selection before the excluded names are taken away, so excluding the category
  \<^verbatim>\<open>system\<close> removes them: with the scenario's registry, the schedule for file type
  \<^verbatim>\<open>text\<close> has the service \<^verbatim>\<open>extract\<close> in the first bucket and an empty last bucket,
  where the system service \<^verbatim>\<open>sync\<close> belongs.
\<close>

theorem system_service_excluded_by_category:
  "build_schedule py_re_match [''pre'', ''post''] [extract_service, sync_service]
     \<lparr>selected_categories = None, excluded_categories = Some [''system'']\<rparr> ''text''
   = Some (Inr ([[''extract'' \<mapsto> extract_service], Map.empty], []))"
  by (simp add: eval_defs extract_service_def sync_service_def)




section \<open>Configuration errors during scheduling\<close>

text \<open>
  Nothing catches the \<^verbatim>\<open>ValueError\<close> of \<^verbatim>\<open>stage_index\<close>: once a candidate that passes
  the filter names a stage outside the Stage List, the loop ends with an error,
  whatever the other candidates are.
\<close>

lemma schedule_loop_unknown_stage:
  assumes "n \<in> set names" and "map_of all_services n = Some ser"
    and "rm (accepts ser) ft = Some True"
    and "rejects ser = [] \<or> rm (rejects ser) ft \<noteq> Some True"
    and "stage ser \<notin> set stages"
  shows "\<exists>e. schedule_loop rm stages all_services ft names (sched, warned) = Inl e"
  using assms(1)
proof (induction names arbitrary: sched warned)
  case Nil
  then show ?case by simp
next
  case (Cons nm names)
  show ?case
  proof (cases "nm = n")
    case True
    from assms(5) have "index_of stages (stage ser) = None"
      by (simp add: index_of_None)
    with True assms(2,3,4) show ?thesis
      by (cases "rm (rejects ser) ft") (auto simp: stage_index_def)
  next
    case False
    with Cons have rest: "\<And>s w. \<exists>e. schedule_loop rm stages all_services ft names (s, w) = Inl e"
      by simp
    show ?thesis
    proof (cases "map_of all_services nm")
      case None
      with rest show ?thesis by simp
    next
      case (Some ser')
      show ?thesis
      proof (cases "rm (accepts ser') ft")
        case None
        with Some show ?thesis by simp
      next
        case acc: (Some acc)
        show ?thesis
        proof (cases "rm (rejects ser') ft")
          case None
          with Some acc show ?thesis by simp
        next
          case rej: (Some rej)
          show ?thesis
          proof (cases "stage_index stages (stage ser')")
            case (Inl e)
            with Some acc rej rest[of sched warned] show ?thesis by simp
          next
            case (Inr j)
            with Some acc rej rest[of sched warned]
              rest[of "sched[j := (sched ! j)(nm \<mapsto> ser')]" warned]
            show ?thesis by simp
          qed
        qed
      qed
    qed
  qed
qed

lemma eval_ghost:
  "build_schedule py_re_match [''pre''] [extract_service]
     \<lparr>selected_categories = Some [''extract'', ''ghost''], excluded_categories = None\<rparr> ''text''
   = Some (Inr ([[''extract'' \<mapsto> extract_service]], [''ghost'']))"
  by (auto simp: eval_defs Let_def extract_service_def)

lemma eval_misplaced:
  "build_schedule py_re_match [''pre'', ''post''] [misplaced_service]
     \<lparr>selected_categories = None, excluded_categories = None\<rparr> ''text''
   = Some (Inl (ValueError ''unknown''))"
  by (simp add: eval_defs misplaced_service_def)

text \<open>
  Claim C6, as the code has it. When both expansions return: if the patterns of every
  registered candidate compile and every registered candidate that passes the filter
  names a stage of the Stage List, then \<^verbatim>\<open>build_schedule\<close> returns a schedule, it has
  logged exactly the candidates without a definition, and no name without a definition
  is in any bucket; and if some registered candidate passes the filter and names a stage
  outside the Stage List, \<^verbatim>\<open>build_schedule\<close> raises.
\<close>

theorem build_schedule_missing_definition_skipped:
  assumes exc: "expand_categories items (excluded_categories sub) = Some excluded"
    and sel: "(if selected_categories sub = None \<or> selected_categories sub = Some []
               then Some (map fst (services items))
               else expand_categories items (selected_categories sub)) = Some selected"
    and cand: "candidates = candidate_names (add_system_services (services items) selected) excluded"
  shows "((\<forall>n\<in>set candidates. \<forall>ser. map_of (services items) n = Some ser \<longrightarrow>
            (\<exists>acc rej. rm (accepts ser) ft = Some acc \<and> rm (rejects ser) ft = Some rej \<and>
               (acc \<and> (rejects ser = [] \<or> \<not> rej) \<longrightarrow> stage ser \<in> set stages))) \<longrightarrow>
          (\<exists>sched warned. build_schedule rm stages items sub ft = Some (Inr (sched, warned)) \<and>
             warned = filter (\<lambda>n. map_of (services items) n = None) candidates \<and>
             (\<forall>n. map_of (services items) n = None \<longrightarrow>
                  (\<forall>i<length sched. (sched ! i) n = None)))) \<and>
         ((\<exists>n\<in>set candidates. \<exists>ser. map_of (services items) n = Some ser \<and>
              rm (accepts ser) ft = Some True \<and>
              (rejects ser = [] \<or> rm (rejects ser) ft \<noteq> Some True) \<and>
              stage ser \<notin> set stages) \<longrightarrow>
          (\<exists>e. build_schedule rm stages items sub ft = Some (Inl e)))"
proof -
  have bs: "build_schedule rm stages items sub ft =
      Some (schedule_loop rm stages (services items) ft candidates
              (replicate (length stages) Map.empty, []))"
    using exc sel unfolding build_schedule_def Let_def cand by simp
  show ?thesis
  proof (intro conjI impI)
    assume ok: "\<forall>n\<in>set candidates. \<forall>ser. map_of (services items) n = Some ser \<longrightarrow>
            (\<exists>acc rej. rm (accepts ser) ft = Some acc \<and> rm (rejects ser) ft = Some rej \<and>
               (acc \<and> (rejects ser = [] \<or> \<not> rej) \<longrightarrow> stage ser \<in> set stages))"
    from schedule_loop_returns[of candidates "services items" rm ft stages
        "replicate (length stages) Map.empty" "[]", OF ok] obtain sched warned where
      loop: "schedule_loop rm stages (services items) ft candidates
              (replicate (length stages) Map.empty, []) = Inr (sched, warned)"
      by fastforce
    with bs have ret: "build_schedule rm stages items sub ft = Some (Inr (sched, warned))"
      by simp
    from schedule_loop_warned[OF loop]
    have w: "warned = filter (\<lambda>n. map_of (services items) n = None) candidates" by simp
    have len: "length sched = length stages" by (rule build_schedule_bucket(1)[OF ret])
    have absent: "\<forall>n. map_of (services items) n = None \<longrightarrow> (\<forall>i<length sched. (sched ! i) n = None)"
    proof (intro allI impI)
      fix n i assume none: "map_of (services items) n = None" and i: "i < length sched"
      show "(sched ! i) n = None"
      proof (cases "(sched ! i) n")
        case None
        then show ?thesis .
      next
        case (Some ser)
        from i len have "i < length stages" by simp
        from build_schedule_bucket(2)[OF ret this Some] none show ?thesis by simp
      qed
    qed
    from ret w absent
    show "\<exists>sched warned. build_schedule rm stages items sub ft = Some (Inr (sched, warned)) \<and>
             warned = filter (\<lambda>n. map_of (services items) n = None) candidates \<and>
             (\<forall>n. map_of (services items) n = None \<longrightarrow>
                  (\<forall>i<length sched. (sched ! i) n = None))"
      by blast
  next
    assume "\<exists>n\<in>set candidates. \<exists>ser. map_of (services items) n = Some ser \<and>
              rm (accepts ser) ft = Some True \<and>
              (rejects ser = [] \<or> rm (rejects ser) ft \<noteq> Some True) \<and>
              stage ser \<notin> set stages"
    then obtain n ser where bad: "n \<in> set candidates" "map_of (services items) n = Some ser"
      "rm (accepts ser) ft = Some True" "rejects ser = [] \<or> rm (rejects ser) ft \<noteq> Some True"
      "stage ser \<notin> set stages" by blast
    have "\<exists>e. schedule_loop rm stages (services items) ft candidates
              (replicate (length stages) Map.empty, []) = Inl e"
      by (rule schedule_loop_unknown_stage[where rm = rm and ft = ft and n = n and ser = ser])
         (rule bad)+
    with bs
    show "\<exists>e. build_schedule rm stages items sub ft = Some (Inl e)" by simp
  qed
qed

theorem build_schedule_missing_definition_skipped_witness:
  "build_schedule py_re_match [''pre''] [extract_service]
     \<lparr>selected_categories = Some [''extract'', ''ghost''], excluded_categories = None\<rparr> ''text''
   = Some (Inr ([[''extract'' \<mapsto> extract_service]], [''ghost'']))
   \<and> map_of (services [extract_service]) ''ghost'' = None
   \<and> [''ghost''] = filter (\<lambda>n. map_of (services [extract_service]) n = None) [''ghost'', ''extract'']
   \<and> stage misplaced_service \<notin> set [''pre'', ''post'']
   \<and> (\<exists>e. build_schedule py_re_match [''pre'', ''post''] [misplaced_service]
     \<lparr>selected_categories = None, excluded_categories = None\<rparr> ''text'' = Some (Inl e))"
proof -
  let ?sub = "\<lparr>selected_categories = Some [''extract'', ''ghost''], excluded_categories = None\<rparr>"
  have exc: "expand_categories [extract_service] (excluded_categories ?sub) = Some []"
    by (simp add: expand_categories_def)
  have sel: "(if selected_categories ?sub = None \<or> selected_categories ?sub = Some []
               then Some (map fst (services [extract_service]))
               else expand_categories [extract_service] (selected_categories ?sub))
             = Some [''ghost'', ''extract'']"
    by (simp add: eval_defs extract_service_def)
  have cand: "[''ghost'', ''extract''] =
      candidate_names (add_system_services (services [extract_service]) [''ghost'', ''extract'']) []"
    by (simp add: eval_defs extract_service_def)
  have ok: "\<forall>n\<in>set [''ghost'', ''extract'']. \<forall>ser. map_of (services [extract_service]) n = Some ser \<longrightarrow>
            (\<exists>acc rej. py_re_match (accepts ser) ''text'' = Some acc \<and>
               py_re_match (rejects ser) ''text'' = Some rej \<and>
               (acc \<and> (rejects ser = [] \<or> \<not> rej) \<longrightarrow> stage ser \<in> set [''pre'']))"
    by (auto simp: eval_defs extract_service_def)
  note T = build_schedule_missing_definition_skipped
    [where rm = py_re_match and ft = "''text''" and stages = "[''pre'']", OF exc sel cand]
  from T ok have
    "\<exists>sched warned. build_schedule py_re_match [''pre''] [extract_service] ?sub ''text''
        = Some (Inr (sched, warned)) \<and>
       warned = filter (\<lambda>n. map_of (services [extract_service]) n = None) [''ghost'', ''extract''] \<and>
       (\<forall>n. map_of (services [extract_service]) n = None \<longrightarrow>
            (\<forall>i<length sched. (sched ! i) n = None))"
    by blast
  with eval_ghost have w: "[''ghost''] =
      filter (\<lambda>n. map_of (services [extract_service]) n = None) [''ghost'', ''extract'']"
    by simp
  have g: "map_of (services [extract_service]) ''ghost'' = None"
    by (simp add: services_def extract_service_def)
  let ?sub' = "\<lparr>selected_categories = None, excluded_categories = None\<rparr>"
  have exc': "expand_categories [misplaced_service] (excluded_categories ?sub') = Some []"
    by (simp add: expand_categories_def)
  have sel': "(if selected_categories ?sub' = None \<or> selected_categories ?sub' = Some []
               then Some (map fst (services [misplaced_service]))
               else expand_categories [misplaced_service] (selected_categories ?sub'))
             = Some [''extract'']"
    by (simp add: services_def misplaced_service_def)
  have cand': "[''extract''] =
      candidate_names (add_system_services (services [misplaced_service]) [''extract'']) []"
    by (simp add: eval_defs misplaced_service_def)
  have unknown: "stage misplaced_service \<notin> set [''pre'', ''post'']"
    by (simp add: misplaced_service_def)
  have bad: "\<exists>n\<in>set [''extract'']. \<exists>ser. map_of (services [misplaced_service]) n = Some ser \<and>
              py_re_match (accepts ser) ''text'' = Some True \<and>
              (rejects ser = [] \<or> py_re_match (rejects ser) ''text'' \<noteq> Some True) \<and>
              stage ser \<notin> set [''pre'', ''post'']"
    by (simp add: eval_defs misplaced_service_def)
  note T' = build_schedule_missing_definition_skipped
    [where rm = py_re_match and ft = "''text''" and stages = "[''pre'', ''post'']",
     OF exc' sel' cand']
  from T' bad have raises: "\<exists>e. build_schedule py_re_match [''pre'', ''post''] [misplaced_service]
     ?sub' ''text'' = Some (Inl e)"
    by blast
  from eval_ghost g w unknown raises show ?thesis by blast
qed

text \<open>
  The claim as stated fails on a service whose stage is not in the Stage List:
  \<^verbatim>\<open>build_schedule\<close> raises the \<^verbatim>\<open>ValueError\<close> of \<^verbatim>\<open>list.index\<close>.
\<close>

theorem unknown_stage_raises:
  "build_schedule py_re_match [''pre'', ''post''] [misplaced_service]
     \<lparr>selected_categories = None, excluded_categories = None\<rparr> ''text''
   = Some (Inl (ValueError ''unknown''))"
  by (simp add: eval_defs misplaced_service_def)

section \<open>Properties of the config identity\<close>


text \<open>
  Normalizing adds no string and no other scalar to a value. The hash of a normal form
  reads the hashes of the process only at the strings and the other scalars of the
  configuration, and raises only where the hash of one of these scalars does.
\<close>

lemma first_error_all_right:
  "(\<forall>r\<in>set rs. \<exists>x. r = Inr x) \<Longrightarrow> \<exists>xs. first_error rs = Inr xs"
  by (induction rs rule: first_error.induct) auto

lemma dict_value_member:
  "k \<in> set (map fst kvs) \<Longrightarrow> (k, the (map_of kvs k)) \<in> set kvs"
proof -
  assume "k \<in> set (map fst kvs)"
  then obtain v where v: "map_of kvs k = Some v"
    by (metis map_of_eq_None_iff not_Some_eq set_map)
  then have "(k, v) \<in> set kvs" by (rule map_of_SomeD)
  with v show ?thesis by simp
qed

lemma strings_of_normalize: "strings_of (normalize_data c) \<subseteq> strings_of c"
proof (induction c rule: normalize_data.induct)
  case (1 kvs)
  show ?case
  proof
    fix s assume "s \<in> strings_of (normalize_data (PDict kvs))"
    then obtain k where k: "k \<in> set (map fst kvs)"
      and s: "s = k \<or> s \<in> strings_of (normalize_data (the (map_of kvs k)))"
      by auto
    from dict_value_member[OF k] have mem: "(k, the (map_of kvs k)) \<in> set kvs" .
    from k have "k \<in> set (sort (map fst kvs))" by simp
    from 1[OF this] have sub:
      "strings_of (normalize_data (the (map_of kvs k))) \<subseteq> strings_of (the (map_of kvs k))" .
    from s show "s \<in> strings_of (PDict kvs)"
    proof
      assume "s = k"
      with mem show ?thesis by force
    next
      assume "s \<in> strings_of (normalize_data (the (map_of kvs k)))"
      with sub have "s \<in> strings_of (the (map_of kvs k))" by auto
      with mem show ?thesis by force
    qed
  qed
next
  case (2 vs)
  then show ?case by fastforce
next
  case (3 vs)
  then show ?case by fastforce
qed simp_all

lemma others_of_normalize: "others_of (normalize_data c) \<subseteq> others_of c"
proof (induction c rule: normalize_data.induct)
  case (1 kvs)
  show ?case
  proof
    fix x assume "x \<in> others_of (normalize_data (PDict kvs))"
    then obtain k where k: "k \<in> set (map fst kvs)"
      and x: "x \<in> others_of (normalize_data (the (map_of kvs k)))"
      by auto
    from dict_value_member[OF k] have mem: "(k, the (map_of kvs k)) \<in> set kvs" .
    from k have "k \<in> set (sort (map fst kvs))" by simp
    from 1[OF this] x have "x \<in> others_of (the (map_of kvs k))" by auto
    with mem show "x \<in> others_of (PDict kvs)" by force
  qed
next
  case (2 vs)
  then show ?case by fastforce
next
  case (3 vs)
  then show ?case by fastforce
qed simp_all

lemma py_hash_cong:
  "(\<forall>s\<in>strings_of v. sh1 s = sh2 s) \<Longrightarrow> (\<forall>x\<in>others_of v. oh1 x = oh2 x) \<Longrightarrow>
   py_hash sh1 oh1 th v = py_hash sh2 oh2 th v"
proof (induction v)
  case (PTuple vs)
  then have "map (py_hash sh1 oh1 th) vs = map (py_hash sh2 oh2 th) vs"
    by (intro map_cong) auto
  then show ?case by (simp del: map_eq_conv)
qed simp_all

lemma py_hash_hashable:
  "(\<forall>x\<in>others_of v. \<exists>h. oh x = Inr h) \<Longrightarrow> (\<exists>h. py_hash sh oh th (normalize_data v) = Inr h)"
proof (induction v rule: normalize_data.induct)
  case (1 kvs)
  have "\<forall>r\<in>set (map (py_hash sh oh th)
          (map (\<lambda>k. PTuple [PStr k, normalize_data (the (map_of kvs k))]) (sort (map fst kvs)))).
        \<exists>x. r = Inr x"
  proof
    fix r
    assume "r \<in> set (map (py_hash sh oh th)
          (map (\<lambda>k. PTuple [PStr k, normalize_data (the (map_of kvs k))]) (sort (map fst kvs))))"
    then obtain k where k: "k \<in> set (sort (map fst kvs))"
      and r: "r = py_hash sh oh th (PTuple [PStr k, normalize_data (the (map_of kvs k))])"
      by auto
    from k have "k \<in> set (map fst kvs)" by simp
    from dict_value_member[OF this] have "(k, the (map_of kvs k)) \<in> set kvs" .
    then have "others_of (the (map_of kvs k)) \<subseteq> others_of (PDict kvs)" by force
    with 1(2) have "\<forall>x\<in>others_of (the (map_of kvs k)). \<exists>h. oh x = Inr h" by blast
    from 1(1)[OF k this] obtain h where
      "py_hash sh oh th (normalize_data (the (map_of kvs k))) = Inr h" by blast
    with r show "\<exists>x. r = Inr x" by simp
  qed
  from first_error_all_right[OF this] show ?case by auto
next
  case (2 vs)
  then have "\<forall>r\<in>set (map (py_hash sh oh th) (map normalize_data vs)). \<exists>x. r = Inr x"
    by fastforce
  from first_error_all_right[OF this] show ?case by auto
next
  case (3 vs)
  then have "\<forall>r\<in>set (map (py_hash sh oh th) (map normalize_data vs)). \<exists>x. r = Inr x"
    by fastforce
  from first_error_all_right[OF this] show ?case by auto
next
  case (4 n)
  show ?case by simp
next
  case (5 s)
  show ?case by simp
next
  case (6 x)
  then show ?case by simp
qed





text \<open>
  Claim C3, as the code has it. Two runs compute the same result for a configuration,
  the same hash string or the same error, when their processes hash the strings and the
  other scalars of that configuration alike; the result is a hash string when the process
  can hash every other scalar of the configuration.
\<close>

theorem config_hash_depends_on_scalar_hashes:
  assumes "\<forall>s\<in>strings_of c. sh1 s = sh2 s" and "\<forall>x\<in>others_of c. oh1 x = oh2 x"
  shows "config_hash sh1 oh1 th c = config_hash sh2 oh2 th c \<and>
         ((\<forall>x\<in>others_of c. \<exists>h. oh1 x = Inr h) \<longrightarrow> (\<exists>s. config_hash sh1 oh1 th c = Inr s))"
proof -
  from assms(1) strings_of_normalize[of c]
  have s: "\<forall>s\<in>strings_of (normalize_data c). sh1 s = sh2 s" by blast
  from assms(2) others_of_normalize[of c]
  have x: "\<forall>x\<in>others_of (normalize_data c). oh1 x = oh2 x" by blast
  from py_hash_cong[OF s x] have "config_hash sh1 oh1 th c = config_hash sh2 oh2 th c"
    by (simp add: config_hash_def)
  moreover have "(\<forall>x\<in>others_of c. \<exists>h. oh1 x = Inr h) \<longrightarrow> (\<exists>s. config_hash sh1 oh1 th c = Inr s)"
  proof
    assume "\<forall>x\<in>others_of c. \<exists>h. oh1 x = Inr h"
    from py_hash_hashable[OF this, of sh1 th] show "\<exists>s. config_hash sh1 oh1 th c = Inr s"
      by (auto simp: config_hash_def)
  qed
  ultimately show ?thesis by blast
qed

theorem config_hash_depends_on_scalar_hashes_witness:
  "strings_of (PDict [(''a'', PList [PInt 1, POther ()])]) = {''a''}
   \<and> others_of (PDict [(''a'', PList [PInt 1, POther ()])]) = {()}
   \<and> (\<lambda>s. if s = ''a'' then 5 else 0) ''a'' = (\<lambda>s. if s = ''a'' then 5 else (1::int)) ''a''
   \<and> (\<forall>th. config_hash (\<lambda>s. if s = ''a'' then 5 else 0) (\<lambda>u. Inr 7) th
              (PDict [(''a'', PList [PInt 1, POther ()])])
           = config_hash (\<lambda>s. if s = ''a'' then 5 else 1) (\<lambda>u. Inr 7) th
              (PDict [(''a'', PList [PInt 1, POther ()])]))
   \<and> (\<forall>th. \<exists>s. config_hash (\<lambda>s. if s = ''a'' then 5 else 0) (\<lambda>u. Inr 7) th
              (PDict [(''a'', PList [PInt 1, POther ()])]) = Inr s)"
proof -
  let ?c = "PDict [(''a'', PList [PInt 1, POther ()])]"
  have s: "strings_of ?c = {''a''}" by simp
  have o: "others_of ?c = {()}" by simp
  have hs: "\<forall>s\<in>strings_of ?c.
      (\<lambda>s. if s = ''a'' then 5 else 0) s = (\<lambda>s. if s = ''a'' then 5 else (1::int)) s"
    by simp
  have ho: "\<forall>x\<in>others_of ?c. (\<lambda>u::unit. Inr 7 :: error + int) x = (\<lambda>u. Inr 7) x"
    by simp
  have hh: "\<forall>x\<in>others_of ?c. \<exists>h. (\<lambda>u::unit. Inr 7 :: error + int) x = Inr h"
    by simp
  note T = config_hash_depends_on_scalar_hashes[OF hs ho]
  from T hh have "\<forall>th. config_hash (\<lambda>s. if s = ''a'' then 5 else 0) (\<lambda>u. Inr 7) th ?c
           = config_hash (\<lambda>s. if s = ''a'' then 5 else 1) (\<lambda>u. Inr 7) th ?c"
    and "\<forall>th. \<exists>s. config_hash (\<lambda>s. if s = ''a'' then 5 else 0) (\<lambda>u. Inr 7) th ?c = Inr s"
    by blast+
  with s o show ?thesis by simp
qed

text \<open>
  The claim as stated fails: the result depends on the string hash of the process, which
  Python salts anew at each start, and on what the process answers for the hash of the
  other scalars.
\<close>

theorem config_hash_differs_between_processes:
  "\<not> (\<forall>sh1 sh2 (oh :: unit \<Rightarrow> error + int) th c.
        config_hash sh1 oh th c = config_hash sh2 oh th c) \<and>
   \<not> (\<forall>sh (oh1 :: unit \<Rightarrow> error + int) oh2 th c.
        config_hash sh oh1 th c = config_hash sh oh2 th c)"
proof
  show "\<not> (\<forall>sh1 sh2 (oh :: unit \<Rightarrow> error + int) th c.
        config_hash sh1 oh th c = config_hash sh2 oh th c)"
  proof
    assume "\<forall>sh1 sh2 (oh :: unit \<Rightarrow> error + int) th c.
        config_hash sh1 oh th c = config_hash sh2 oh th c"
    then have "config_hash (\<lambda>s. 0) (\<lambda>u::unit. Inr 0) (\<lambda>hs. 0) (PStr ''a'')
        = config_hash (\<lambda>s. 1) (\<lambda>u::unit. Inr 0) (\<lambda>hs. 0) (PStr ''a'')"
      by blast
    then show False by (simp add: config_hash_def str_int_def digit_char_def)
  qed
  show "\<not> (\<forall>sh (oh1 :: unit \<Rightarrow> error + int) oh2 th c.
        config_hash sh oh1 th c = config_hash sh oh2 th c)"
  proof
    assume "\<forall>sh (oh1 :: unit \<Rightarrow> error + int) oh2 th c.
        config_hash sh oh1 th c = config_hash sh oh2 th c"
    then have "config_hash (\<lambda>s. 0) (\<lambda>u::unit. Inr 0) (\<lambda>hs. 0) (POther ())
        = config_hash (\<lambda>s. 0) (\<lambda>u::unit. Inr 1) (\<lambda>hs. 0) (POther ())"
      by blast
    then show False by (simp add: config_hash_def str_int_def digit_char_def)
  qed
qed

section \<open>Properties of the result key\<close>

text \<open>
  Claim C8 (the key is built from the service version). The version handed to
  \<^verbatim>\<open>Result.build_key\<close> is the constant \<^verbatim>\<open>'0'\<close>: the key is the same whatever version
  of the service produced the result.
\<close>

theorem build_result_key_version_is_constant:
  "build_result_key build_key file_hash service_name conf_hash
     = build_key service_name ''0'' file_hash conf_hash"
  by (simp add: build_result_key_def)

section \<open>Properties of cached documents\<close>













end
